theory Spec2Isabelle
  imports Main
begin

section \<open>Token kinds\<close>

text \<open>
  Modelled from the spec: the enumeration \<^verbatim>\<open>tok::TokenKind\<close> is declared in
  \<^verbatim>\<open>MetaLexer.h\<close>, which is not among the sources. The specification fixes the
  kinds (end-of-file, slash, asterisk, hash, six bracket punctuators, the two
  literal starts, other) and their layout: the three openers sit at even
  ordinals and each closer is its opener plus one; \<^verbatim>\<open>validate\<close> further needs
  \<^verbatim>\<open>l_square\<close> to be the least and \<^verbatim>\<open>r_brace\<close> the greatest bracket kind, and
  \<^verbatim>\<open>stringlit\<close>, \<^verbatim>\<open>charlit\<close> to be adjacent. The validator stores the kinds
  as \<^verbatim>\<open>int\<close>, so they are integers here.
\<close>

definition tok_l_square :: int where "tok_l_square = 0"
definition tok_r_square :: int where "tok_r_square = 1"
definition tok_l_paren :: int where "tok_l_paren = 2"
definition tok_r_paren :: int where "tok_r_paren = 3"
definition tok_l_brace :: int where "tok_l_brace = 4"
definition tok_r_brace :: int where "tok_r_brace = 5"
definition tok_stringlit :: int where "tok_stringlit = 6"
definition tok_charlit :: int where "tok_charlit = 7"
definition tok_slash :: int where "tok_slash = 8"
definition tok_hash :: int where "tok_hash = 9"
definition tok_asterik :: int where "tok_asterik = 10"
definition tok_other :: int where "tok_other = 11"
definition tok_eof :: int where "tok_eof = 12"

lemmas tok_defs =
  tok_l_square_def tok_r_square_def tok_l_paren_def tok_r_paren_def
  tok_l_brace_def tok_r_brace_def tok_stringlit_def tok_charlit_def
  tok_slash_def tok_hash_def tok_asterik_def tok_other_def tok_eof_def

section \<open>The text of a line\<close>

text \<open>
  \<^verbatim>\<open>validate\<close> walks the line through a \<^verbatim>\<open>const char*\<close> obtained from
  \<^verbatim>\<open>line.data()\<close>: the text it sees ends at the first NUL. A cursor is an index
  into that text; the index equal to its length is the terminating NUL.
\<close>

definition c_str :: "string \<Rightarrow> string" where
  "c_str line = takeWhile (\<lambda>c. c \<noteq> CHR 0x00) line"

definition char_at :: "string \<Rightarrow> nat \<Rightarrow> char" where
  "char_at buf p = (if p < length buf then buf ! p else CHR 0x00)"

section \<open>The lexer\<close>

text \<open>
  Modelled from the spec: \<^verbatim>\<open>MetaLexer\<close> is an external collaborator whose source
  is not among the sources. \<open>punctuator_kind\<close> classifies one character into the
  kinds the specification names; every other character is of kind other.
\<close>

definition punctuator_kind :: "char \<Rightarrow> int" where
  "punctuator_kind c =
     (if c = CHR ''['' then tok_l_square
      else if c = CHR '']'' then tok_r_square
      else if c = CHR ''('' then tok_l_paren
      else if c = CHR '')'' then tok_r_paren
      else if c = CHR ''{'' then tok_l_brace
      else if c = CHR ''}'' then tok_r_brace
      else if c = CHR 0x22 then tok_stringlit
      else if c = CHR 0x27 then tok_charlit
      else if c = CHR ''/'' then tok_slash
      else if c = CHR ''#'' then tok_hash
      else if c = CHR ''*'' then tok_asterik
      else tok_other)"

text \<open>
  Modelled from the spec: \<^verbatim>\<open>MetaLexer::LexPunctuatorAndAdvance\<close>, the
  specification's \<^verbatim>\<open>lexNext(cursor)\<close>, which yields the next token and advances
  the cursor past one punctuator or one identifier group. At the end of the text
  the token is end-of-file and the cursor rests on the terminator. A double slash
  starts a line comment: the rest of the line is consumed by that call, which
  yields end-of-file (this is the character range that the nested-comment
  recovery of section 4.2 rescans for a double slash). A punctuator is one
  character; a group is a maximal run of characters of kind other.
\<close>

definition LexPunctuatorAndAdvance :: "string \<Rightarrow> nat \<Rightarrow> int \<times> nat" where
  "LexPunctuatorAndAdvance buf curPos =
     (if length buf \<le> curPos then (tok_eof, curPos)
      else if char_at buf curPos = CHR ''/'' \<and> char_at buf (curPos + 1) = CHR ''/''
      then (tok_eof, length buf)
      else if punctuator_kind (buf ! curPos) \<noteq> tok_other
      then (punctuator_kind (buf ! curPos), curPos + 1)
      else (tok_other,
            curPos + length (takeWhile (\<lambda>c. punctuator_kind c = tok_other) (drop curPos buf))))"

text \<open>
  Modelled from the spec: \<^verbatim>\<open>MetaLexer::LexQuotedStringAndAdvance\<close>, the
  specification's \<^verbatim>\<open>lexQuotedLiteral(cursor)\<close>. The cursor stands right after the
  opening quote; the scan advances past the literal including its closing quote
  if that is present on the line, and to the end of the line otherwise.
\<close>

definition LexQuotedStringAndAdvance :: "string \<Rightarrow> nat \<Rightarrow> int \<Rightarrow> nat" where
  "LexQuotedStringAndAdvance buf curPos kind =
     (let quote = (if kind = tok_stringlit then CHR 0x22 else CHR 0x27);
          rest = drop curPos buf;
          n = length (takeWhile (\<lambda>c. c \<noteq> quote) rest)
      in if n < length rest then curPos + n + 1 else curPos + n)"

section \<open>The validator\<close>

datatype ValidationResult = kIncomplete | kComplete | kMismatch

text \<open>
  The failed assertions of the source are values: the program aborts there.
\<close>

datatype error = TokenStackEmpty | CommentTokenNotSlashOrStar | NestedBlockCommentCount

text \<open>
  The two members of \<^verbatim>\<open>InputValidator\<close> that the code reads and writes. The
  deque \<^verbatim>\<open>m_ParenStack\<close> is a list whose head is the deque's \<^verbatim>\<open>back()\<close>.
\<close>

record InputValidator =
  m_Input :: string
  m_ParenStack :: "int list"

definition inBlockComment :: "InputValidator \<Rightarrow> bool" where
  "inBlockComment V = (tok_slash \<in> set (m_ParenStack V))"

subsection \<open>findNestedBlockComments\<close>

text \<open>
  The inner, backward loop. The \<^verbatim>\<open>char commentTok\<close> only ever holds 0, 1, 2 or
  the code of an asterisk or a slash; it is an integer here.
\<close>

function findNested_backward :: "string \<Rightarrow> nat \<Rightarrow> nat \<Rightarrow> int \<Rightarrow> int" where
  "findNested_backward buf startPos endPos commentTok =
     (if endPos > startPos then
        (if char_at buf endPos = CHR ''*'' then
           (if commentTok = of_char (CHR ''*'') then - 1
            else findNested_backward buf startPos (endPos - 1) (of_char (CHR ''/'')))
         else if char_at buf endPos = CHR ''/'' then
           (if commentTok = of_char (CHR ''/'') then 1
            else findNested_backward buf startPos (endPos - 1) (of_char (CHR ''*'')))
         else findNested_backward buf startPos (endPos - 1) 0)
      else 0)"
  by pat_completeness auto
termination
  by (relation "measure (\<lambda>(buf, startPos, endPos, commentTok). endPos)") auto

declare findNested_backward.simps [simp del]

text \<open>The outer, forward loop, with the running \<^verbatim>\<open>commentTok\<close> as an argument.\<close>

function findNested_forward :: "string \<Rightarrow> nat \<Rightarrow> nat \<Rightarrow> int \<Rightarrow> int" where
  "findNested_forward buf startPos endPos commentTok =
     (if startPos < endPos then
        (if char_at buf startPos = CHR ''/'' then
           (if commentTok + 1 = 2 then findNested_backward buf startPos endPos (commentTok + 1)
            else findNested_forward buf (startPos + 1) endPos (commentTok + 1))
         else if commentTok \<noteq> 0 then findNested_forward buf (startPos + 1) endPos 0
         else findNested_forward buf (startPos + 1) endPos commentTok)
      else 0)"
  by pat_completeness auto
termination
  by (relation "measure (\<lambda>(buf, startPos, endPos, commentTok). endPos - startPos)") auto

declare findNested_forward.simps [simp del]

definition findNestedBlockComments :: "string \<Rightarrow> nat \<Rightarrow> nat \<Rightarrow> int" where
  "findNestedBlockComments buf startPos endPos = findNested_forward buf startPos endPos 0"

subsection \<open>unwindTokens\<close>

fun unwindTokens :: "int list \<Rightarrow> int \<Rightarrow> error + int list" where
  "unwindTokens [] tok = Inl TokenStackEmpty"
| "unwindTokens (back # queue) tok =
     (if back \<noteq> tok then unwindTokens queue tok else Inr queue)"

subsection \<open>validate\<close>

text \<open>
  The variables that the loop of \<^verbatim>\<open>validate\<close> reads and writes; \<open>ParenStack\<close> is
  the member \<^verbatim>\<open>m_ParenStack\<close> while the loop runs.
\<close>

record locals =
  curPos :: nat
  multilineComment :: bool
  commentTok :: int
  ParenStack :: "int list"
  Res :: ValidationResult

text \<open>
  How one pass through the loop body ends: \<open>Break\<close> leaves the loop, \<open>Next\<close>
  goes to the loop condition (the end of the body, or \<^verbatim>\<open>continue\<close>).
\<close>

datatype flow = Next | Break

text \<open>
  The loop body after the call of the lexer: \<open>kind\<close> is the kind of the token
  just read, \<open>prevStart\<close> the cursor before it was read and \<open>curPos L\<close> the
  cursor after it.
\<close>

definition body :: "string \<Rightarrow> nat \<Rightarrow> int \<Rightarrow> locals \<Rightarrow> error + flow \<times> locals" where
  "body buf prevStart kind L =
     (if kind = commentTok L then
        (if kind = tok_slash then
           (if multilineComment L then
              (case unwindTokens (ParenStack L) tok_slash of
                 Inl e \<Rightarrow> Inl e
               | Inr queue \<Rightarrow>
                   Inr (Next, L\<lparr>multilineComment := False, commentTok := tok_slash,
                                 ParenStack := queue\<rparr>))
            else Inr (Next, L\<lparr>commentTok := tok_asterik\<rparr>))
         else
           (if commentTok L \<noteq> tok_asterik then Inl CommentTokenNotSlashOrStar
            else if \<not> multilineComment L then
              Inr (Next, L\<lparr>multilineComment := True,
                            ParenStack := tok_slash # ParenStack L\<rparr>)
            else Inr (Next, L\<lparr>commentTok := tok_slash\<rparr>)))
      else if multilineComment L \<and> kind = tok_eof then
        (let n = findNestedBlockComments buf prevStart (curPos L) in
         if n = - 1 then
           (case unwindTokens (ParenStack L) tok_slash of
              Inl e \<Rightarrow> Inl e
            | Inr queue \<Rightarrow> Inr (Break, L\<lparr>ParenStack := queue\<rparr>))
         else if n = 1 \<or> n = 0 then Inr (Break, L)
         else Inl NestedBlockCommentCount)
      else
        (let L1 = (if multilineComment L \<and> commentTok L = tok_slash \<and> kind \<noteq> tok_asterik
                   then L\<lparr>commentTok := tok_asterik\<rparr> else L)
         in if tok_l_square \<le> kind \<and> kind \<le> tok_r_brace then
              (if kind mod 2 \<noteq> 0 then
                 (let prev = (if ParenStack L1 = [] then - 1 else hd (ParenStack L1)) in
                  if prev \<noteq> kind - 1 then
                    (if multilineComment L1 then Inr (Next, L1)
                     else Inr (Break, L1\<lparr>Res := kMismatch\<rparr>))
                  else Inr (Next, L1\<lparr>ParenStack := tl (ParenStack L1)\<rparr>))
               else Inr (Next, L1\<lparr>ParenStack := kind # ParenStack L1\<rparr>))
            else if tok_stringlit \<le> kind \<and> kind \<le> tok_charlit then
              Inr (Next, L1\<lparr>curPos := LexQuotedStringAndAdvance buf (curPos L1) kind\<rparr>)
            else Inr (Next, L1)))"

text \<open>
  Facts about the lexer that make the loop of \<^verbatim>\<open>validate\<close> terminate: a token
  other than end-of-file moves the cursor forward inside the text, and the scan
  of a quoted literal never moves it back.
\<close>

lemma LexPunctuatorAndAdvance_advances:
  assumes "LexPunctuatorAndAdvance buf p = (kind, p')" and "kind \<noteq> tok_eof"
  shows "p < p' \<and> p < length buf"
proof -
  from assms have lt: "p < length buf"
    by (auto simp: LexPunctuatorAndAdvance_def split: if_splits)
  show ?thesis
  proof (cases "punctuator_kind (buf ! p) = tok_other")
    case True
    with lt have "drop p buf = buf ! p # drop (Suc p) buf"
      by (simp add: Cons_nth_drop_Suc)
    with True have "0 < length (takeWhile (\<lambda>c. punctuator_kind c = tok_other) (drop p buf))"
      by simp
    with assms lt True show ?thesis
      by (auto simp: LexPunctuatorAndAdvance_def split: if_splits)
  next
    case False
    with assms lt show ?thesis
      by (auto simp: LexPunctuatorAndAdvance_def split: if_splits)
  qed
qed

lemma LexQuotedStringAndAdvance_ge: "p \<le> LexQuotedStringAndAdvance buf p kind"
  by (simp add: LexQuotedStringAndAdvance_def Let_def)

lemma body_curPos:
  "body buf prevStart kind L = Inr (f, L') \<Longrightarrow> curPos L \<le> curPos L'"
  by (auto simp: body_def Let_def LexQuotedStringAndAdvance_ge split: if_splits sum.splits)

text \<open>
  The \<^verbatim>\<open>do ... while (Tok.isNot(tok::eof))\<close> loop: read a token, run the body,
  and go round again unless the body broke out or the token was end-of-file.
\<close>

function scan :: "string \<Rightarrow> locals \<Rightarrow> error + locals" where
  "scan buf L =
     (let prevStart = curPos L;
          (kind, pos) = LexPunctuatorAndAdvance buf prevStart
      in case body buf prevStart kind (L\<lparr>curPos := pos\<rparr>) of
           Inl e \<Rightarrow> Inl e
         | Inr (Break, L') \<Rightarrow> Inr L'
         | Inr (Next, L') \<Rightarrow> if kind \<noteq> tok_eof then scan buf L' else Inr L')"
  by pat_completeness auto
termination
  apply (relation "measure (\<lambda>(buf, L). length buf - curPos L)")
   apply simp
  apply clarsimp
  apply (frule LexPunctuatorAndAdvance_advances[OF sym], assumption)
  apply (drule body_curPos)
  apply simp
  apply arith
  done

declare scan.simps [simp del]

text \<open>The locals as \<^verbatim>\<open>validate\<close> initialises them before the loop.\<close>

definition start :: "InputValidator \<Rightarrow> locals" where
  "start V =
     \<lparr>curPos = 0, multilineComment = inBlockComment V,
      commentTok = (if inBlockComment V then tok_asterik else tok_slash),
      ParenStack = m_ParenStack V, Res = kComplete\<rparr>"

text \<open>
  \<^verbatim>\<open>validate\<close>: the loop, then the result, then the line appended to
  \<^verbatim>\<open>m_Input\<close> after a real newline or after a backslash and the letter n.
\<close>

definition validate :: "string \<Rightarrow> InputValidator \<Rightarrow> error + ValidationResult \<times> InputValidator" where
  "validate line V =
     (case scan (c_str line) (start V) of
        Inl e \<Rightarrow> Inl e
      | Inr L \<Rightarrow>
          (let res = (if ParenStack L \<noteq> [] \<and> Res L \<noteq> kMismatch then kIncomplete else Res L);
               input = (if m_Input V \<noteq> [] then
                          (if ParenStack L \<noteq> [] \<and> (hd (ParenStack L) = tok_stringlit
                                                     \<or> hd (ParenStack L) = tok_charlit)
                           then m_Input V @ [CHR 0x5C, CHR ''n'']
                           else m_Input V @ [CHR 0x0A])
                        else [])
           in Inr (res, \<lparr>m_Input = input @ line, m_ParenStack = ParenStack L\<rparr>)))"

definition reset :: "InputValidator \<Rightarrow> InputValidator" where
  "reset V = V\<lparr>m_Input := [], m_ParenStack := []\<rparr>"

text \<open>
  A freshly constructed validator: both members are default-constructed, an
  empty string and an empty deque.
\<close>

definition fresh :: InputValidator where
  "fresh = \<lparr>m_Input = [], m_ParenStack = []\<rparr>"

section \<open>The states of the loop\<close>

text \<open>
  What holds of the locals every time the loop reads a token: while the local
  flag says that a block comment is open, the marker \<^verbatim>\<open>tok::slash\<close> is on the
  stack, and the digraph cursor expects a slash or an asterisk.
\<close>

definition loop_inv :: "locals \<Rightarrow> bool" where
  "loop_inv L =
     ((\<not> multilineComment L \<or> tok_slash \<in> set (ParenStack L))
      \<and> (commentTok L = tok_slash \<or> commentTok L = tok_asterik))"

text \<open>
  A token of kind \<open>kind\<close> is a bracket mismatch in the locals \<open>L\<close>: a closing
  bracket, outside a block comment, with the stack empty or its top not the
  corresponding opener.
\<close>

definition mismatch_here :: "int \<Rightarrow> locals \<Rightarrow> bool" where
  "mismatch_here kind L =
     (kind \<in> {tok_r_square, tok_r_paren, tok_r_brace} \<and> \<not> multilineComment L
      \<and> (ParenStack L = [] \<or> hd (ParenStack L) \<noteq> kind - 1))"

text \<open>
  \<open>again buf L L'\<close>: one pass through the loop that starts with the locals \<open>L\<close>
  goes round again with the locals \<open>L'\<close>.
\<close>

definition again :: "string \<Rightarrow> locals \<Rightarrow> locals \<Rightarrow> bool" where
  "again buf L L' =
     (case LexPunctuatorAndAdvance buf (curPos L) of
        (kind, pos) \<Rightarrow>
          kind \<noteq> tok_eof \<and> body buf (curPos L) kind (L\<lparr>curPos := pos\<rparr>) = Inr (Next, L'))"

text \<open>
  \<open>during line V L\<close>: while \<^verbatim>\<open>validate(line)\<close> runs on the validator \<open>V\<close>, the
  loop reads a token with the locals \<open>L\<close>.
\<close>

definition during :: "string \<Rightarrow> InputValidator \<Rightarrow> locals \<Rightarrow> bool" where
  "during line V L = (again (c_str line))\<^sup>*\<^sup>* (start V) L"

text \<open>The next token read with the locals \<open>L\<close> is a bracket mismatch.\<close>

definition mismatch_at :: "string \<Rightarrow> locals \<Rightarrow> bool" where
  "mismatch_at buf L = mismatch_here (fst (LexPunctuatorAndAdvance buf (curPos L))) L"

text \<open>
  The stack holds nothing but opening brackets and in-block-comment markers.
\<close>

definition markers_only :: "int list \<Rightarrow> bool" where
  "markers_only q = (set q \<subseteq> {tok_l_square, tok_l_paren, tok_l_brace, tok_slash})"

section \<open>Successive calls\<close>

text \<open>
  The validator after \<^verbatim>\<open>validate\<close> has been called on each line of a list in
  turn; a failed assertion ends the run.
\<close>

fun feed :: "string list \<Rightarrow> InputValidator \<Rightarrow> error + InputValidator" where
  "feed [] V = Inr V"
| "feed (line # lines) V =
     (case validate line V of Inl e \<Rightarrow> Inl e | Inr (r, V') \<Rightarrow> feed lines V')"

section \<open>Balanced lines, in the words of the specification\<close>

text \<open>
  These three predicates are written from the specification, not from the
  code: a line whose brackets are balanced (every closer meets the opener it
  belongs to, and none is left open), a line that contains one of the comment
  digraphs \<^verbatim>\<open>/*\<close>, \<^verbatim>\<open>*/\<close>, \<^verbatim>\<open>//\<close>, and a line that contains a quote
  character. \<open>spec_balanced expected line\<close> takes the closers still expected,
  innermost first.
\<close>

fun spec_balanced :: "string \<Rightarrow> string \<Rightarrow> bool" where
  "spec_balanced expected [] = (expected = [])"
| "spec_balanced expected (c # cs) =
     (if c = CHR ''('' then spec_balanced (CHR '')'' # expected) cs
      else if c = CHR ''['' then spec_balanced (CHR '']'' # expected) cs
      else if c = CHR ''{'' then spec_balanced (CHR ''}'' # expected) cs
      else if c = CHR '')'' \<or> c = CHR '']'' \<or> c = CHR ''}'' then
        (case expected of [] \<Rightarrow> False | e # es \<Rightarrow> e = c \<and> spec_balanced es cs)
      else spec_balanced expected cs)"

fun spec_comment_digraph :: "string \<Rightarrow> bool" where
  "spec_comment_digraph (a # b # cs) =
     ((a = CHR ''/'' \<and> b = CHR ''*'') \<or> (a = CHR ''*'' \<and> b = CHR ''/'')
      \<or> (a = CHR ''/'' \<and> b = CHR ''/'') \<or> spec_comment_digraph (b # cs))"
| "spec_comment_digraph cs = False"

definition spec_quoted_literal :: "string \<Rightarrow> bool" where
  "spec_quoted_literal line = (CHR 0x22 \<in> set line \<or> CHR 0x27 \<in> set line)"

section \<open>Invariants of the loop\<close>

lemma findNested_backward_range:
  "findNested_backward buf s e c \<in> {- 1, 0, 1}"
proof (induction buf s e c rule: findNested_backward.induct)
  case (1 buf startPos endPos commentTok)
  then show ?case
    by (subst findNested_backward.simps) auto
qed

lemma findNested_forward_range:
  "findNested_forward buf s e c \<in> {- 1, 0, 1}"
proof (induction buf s e c rule: findNested_forward.induct)
  case (1 buf startPos endPos commentTok)
  then show ?case
    using findNested_backward_range[of buf startPos endPos "commentTok + 1"]
    by (subst findNested_forward.simps) auto
qed

lemma findNestedBlockComments_range:
  "findNestedBlockComments buf s e = - 1 \<or> findNestedBlockComments buf s e = 0
   \<or> findNestedBlockComments buf s e = 1"
  using findNested_forward_range[of buf s e 0] by (auto simp: findNestedBlockComments_def)

lemma unwindTokens_member:
  "t \<in> set q \<Longrightarrow> unwindTokens q t = Inr (tl (dropWhile (\<lambda>k. k \<noteq> t) q))"
  by (induction q) auto

lemma slash_in_tl:
  assumes "tok_slash \<in> set q" "hd q = kind - 1" "kind \<le> tok_r_brace"
  shows "tok_slash \<in> set (tl q)"
  using assms by (cases q) (auto simp: tok_defs)

lemma body_digraph:
  assumes "loop_inv L" "kind = commentTok L"
  shows "\<exists>L'. body buf ps kind L = Inr (Next, L') \<and> loop_inv L' \<and> Res L' = Res L"
proof (cases "kind = tok_slash")
  case True
  show ?thesis
  proof (cases "multilineComment L")
    case ml: True
    with assms have "tok_slash \<in> set (ParenStack L)" by (simp add: loop_inv_def)
    with True ml assms show ?thesis
      by (simp add: body_def unwindTokens_member loop_inv_def)
  next
    case False
    with True assms show ?thesis
      by (simp add: body_def loop_inv_def)
  qed
next
  case False
  with assms have a: "commentTok L = tok_asterik" by (auto simp: loop_inv_def)
  with False assms show ?thesis
    by (cases "multilineComment L") (simp_all add: body_def loop_inv_def)
qed

lemma body_recovery:
  assumes "loop_inv L" "kind \<noteq> commentTok L" "multilineComment L" "kind = tok_eof"
  shows "\<exists>L'. body buf ps kind L = Inr (Break, L') \<and> Res L' = Res L"
proof -
  from assms have m: "tok_slash \<in> set (ParenStack L)" by (simp add: loop_inv_def)
  from findNestedBlockComments_range[of buf ps "curPos L"] assms m show ?thesis
    by (auto simp: body_def Let_def unwindTokens_member)
qed

lemma closer_kinds:
  "(tok_l_square \<le> kind \<and> kind \<le> tok_r_brace \<and> kind mod 2 \<noteq> 0)
     = (kind \<in> {tok_r_square, tok_r_paren, tok_r_brace})"
  unfolding tok_defs by (simp, presburger)

lemma body_brackets:
  assumes "loop_inv L" "kind \<noteq> commentTok L" "\<not> (multilineComment L \<and> kind = tok_eof)"
  shows "\<exists>f L'. body buf ps kind L = Inr (f, L')
           \<and> (f = Next \<longrightarrow> loop_inv L' \<and> Res L' = Res L)
           \<and> (f = Break \<longrightarrow> L' = L\<lparr>Res := kMismatch\<rparr> \<and> mismatch_here kind L)"
proof -
  define L1 where "L1 = (if multilineComment L \<and> commentTok L = tok_slash \<and> kind \<noteq> tok_asterik
                   then L\<lparr>commentTok := tok_asterik\<rparr> else L)"
  have inv1: "loop_inv L1" and res1: "Res L1 = Res L"
    using assms(1) by (simp_all add: L1_def loop_inv_def)
  have eq: "body buf ps kind L =
      (if tok_l_square \<le> kind \<and> kind \<le> tok_r_brace then
              (if kind mod 2 \<noteq> 0 then
                 (let prev = (if ParenStack L1 = [] then - 1 else hd (ParenStack L1)) in
                  if prev \<noteq> kind - 1 then
                    (if multilineComment L1 then Inr (Next, L1)
                     else Inr (Break, L1\<lparr>Res := kMismatch\<rparr>))
                  else Inr (Next, L1\<lparr>ParenStack := tl (ParenStack L1)\<rparr>))
               else Inr (Next, L1\<lparr>ParenStack := kind # ParenStack L1\<rparr>))
            else if tok_stringlit \<le> kind \<and> kind \<le> tok_charlit then
              Inr (Next, L1\<lparr>curPos := LexQuotedStringAndAdvance buf (curPos L1) kind\<rparr>)
            else Inr (Next, L1))"
  proof -
    have c1: "(kind = commentTok L) = False" using assms(2) by simp
    have c2: "(multilineComment L \<and> kind = tok_eof) = False" using assms(3) by simp
    show ?thesis
      by (simp only: body_def c1 c2 if_False Let_def L1_def)
  qed
  show ?thesis
  proof (cases "tok_l_square \<le> kind \<and> kind \<le> tok_r_brace")
    case br: True
    show ?thesis
    proof (cases "kind mod 2 \<noteq> 0")
      case closer: True
      show ?thesis
      proof (cases "(if ParenStack L1 = [] then - 1 else hd (ParenStack L1)) \<noteq> kind - 1")
        case True
        have "kind \<in> {tok_r_square, tok_r_paren, tok_r_brace}"
          using br closer closer_kinds[of kind] by simp
        moreover have "\<not> multilineComment L \<Longrightarrow> L1 = L" by (simp add: L1_def)
        moreover have "multilineComment L1 = multilineComment L" by (simp add: L1_def)
        moreover have "ParenStack L1 = [] \<or> hd (ParenStack L1) \<noteq> kind - 1"
          using True by (auto split: if_splits)
        ultimately show ?thesis
          using True br closer inv1 res1
          unfolding eq Let_def by (auto simp: mismatch_here_def)
      next
        case False
        then have ne: "ParenStack L1 \<noteq> []" and h: "hd (ParenStack L1) = kind - 1"
          using closer by (auto split: if_splits)
        have "multilineComment L1 \<Longrightarrow> tok_slash \<in> set (tl (ParenStack L1))"
          using inv1 h br slash_in_tl[of "ParenStack L1" kind] by (auto simp: loop_inv_def)
        with False br closer inv1 res1 show ?thesis
          unfolding eq Let_def by (auto simp: loop_inv_def)
      qed
    next
      case False
      with br inv1 res1 show ?thesis
        unfolding eq by (auto simp: loop_inv_def)
    qed
  next
    case False
    with inv1 res1 show ?thesis
      unfolding eq by (auto simp: loop_inv_def)
  qed
qed

lemma body_keeps_inv:
  assumes "loop_inv L"
  shows "\<exists>f L'. body buf ps kind L = Inr (f, L')
           \<and> (f = Next \<longrightarrow> loop_inv L' \<and> Res L' = Res L)
           \<and> (Res L' = Res L \<or> Res L' = kMismatch)"
proof (cases "kind = commentTok L")
  case True
  from body_digraph[OF assms True, of buf ps] show ?thesis by auto
next
  case False
  show ?thesis
  proof (cases "multilineComment L \<and> kind = tok_eof")
    case True
    with body_recovery[OF assms False, of buf ps] show ?thesis by auto
  next
    case nr: False
    from body_brackets[OF assms False nr, of buf ps]
    obtain f L' where "body buf ps kind L = Inr (f, L')"
      "f = Next \<longrightarrow> loop_inv L' \<and> Res L' = Res L"
      "f = Break \<longrightarrow> L' = L\<lparr>Res := kMismatch\<rparr> \<and> mismatch_here kind L"
      by blast
    then show ?thesis by (cases f) auto
  qed
qed


lemma body_plain:
  assumes "kind \<noteq> commentTok L" and "\<not> (multilineComment L \<and> kind = tok_eof)"
  shows "body buf ps kind L =
     (let L1 = (if multilineComment L \<and> commentTok L = tok_slash \<and> kind \<noteq> tok_asterik
                then L\<lparr>commentTok := tok_asterik\<rparr> else L)
      in if tok_l_square \<le> kind \<and> kind \<le> tok_r_brace then
           (if kind mod 2 \<noteq> 0 then
              (let prev = (if ParenStack L1 = [] then - 1 else hd (ParenStack L1)) in
               if prev \<noteq> kind - 1 then
                 (if multilineComment L1 then Inr (Next, L1)
                  else Inr (Break, L1\<lparr>Res := kMismatch\<rparr>))
               else Inr (Next, L1\<lparr>ParenStack := tl (ParenStack L1)\<rparr>))
            else Inr (Next, L1\<lparr>ParenStack := kind # ParenStack L1\<rparr>))
         else if tok_stringlit \<le> kind \<and> kind \<le> tok_charlit then
           Inr (Next, L1\<lparr>curPos := LexQuotedStringAndAdvance buf (curPos L1) kind\<rparr>)
         else Inr (Next, L1))"
proof -
  have c1: "(kind = commentTok L) = False" using assms(1) by simp
  have c2: "(multilineComment L \<and> kind = tok_eof) = False" using assms(2) by simp
  show ?thesis
    by (simp only: body_def c1 c2 if_False)
qed

lemma opener_kinds:
  "(tok_l_square \<le> kind \<and> kind \<le> tok_r_brace \<and> kind mod 2 = 0)
     = (kind \<in> {tok_l_square, tok_l_paren, tok_l_brace})"
  unfolding tok_defs by (simp, presburger)

lemma scan_unfold:
  assumes "LexPunctuatorAndAdvance buf (curPos L) = (kind, pos)"
  shows "scan buf L =
     (case body buf (curPos L) kind (L\<lparr>curPos := pos\<rparr>) of
        Inl e \<Rightarrow> Inl e
      | Inr (Break, L') \<Rightarrow> Inr L'
      | Inr (Next, L') \<Rightarrow> if kind \<noteq> tok_eof then scan buf L' else Inr L')"
  using assms by (subst scan.simps) simp

lemma loop_inv_curPos [simp]: "loop_inv (L\<lparr>curPos := p\<rparr>) = loop_inv L"
  by (simp add: loop_inv_def)

lemma scan_total:
  "loop_inv L \<Longrightarrow> \<exists>L'. scan buf L = Inr L' \<and> (Res L' = Res L \<or> Res L' = kMismatch)"
proof (induction buf L rule: scan.induct)
  case (1 buf L)
  obtain kind pos where lex: "LexPunctuatorAndAdvance buf (curPos L) = (kind, pos)"
    by (cases "LexPunctuatorAndAdvance buf (curPos L)")
  from "1.prems" have "loop_inv (L\<lparr>curPos := pos\<rparr>)" by simp
  from body_keeps_inv[OF this, of buf "curPos L" kind]
  obtain f L1 where b: "body buf (curPos L) kind (L\<lparr>curPos := pos\<rparr>) = Inr (f, L1)"
    and n: "f = Next \<longrightarrow> loop_inv L1 \<and> Res L1 = Res L"
    and r: "Res L1 = Res L \<or> Res L1 = kMismatch"
    by auto
  show ?case
  proof (cases "f = Next \<and> kind \<noteq> tok_eof")
    case True
    with "1.IH"[OF refl lex[symmetric] refl b[unfolded True[THEN conjunct1]]] n
    obtain L' where "scan buf L1 = Inr L'" "Res L' = Res L1 \<or> Res L' = kMismatch"
      by auto
    with True b n show ?thesis
      by (auto simp: scan_unfold[OF lex])
  next
    case False
    with b r show ?thesis
      by (cases f) (auto simp: scan_unfold[OF lex])
  qed
qed


lemma mismatch_here_curPos [simp]: "mismatch_here kind (L\<lparr>curPos := p\<rparr>) = mismatch_here kind L"
  by (simp add: mismatch_here_def)

lemma again_scan: "again buf L L' \<Longrightarrow> scan buf L = scan buf L'"
  by (cases "LexPunctuatorAndAdvance buf (curPos L)")
     (simp add: again_def scan_unfold)

lemma again_inv:
  assumes "loop_inv L" "again buf L L'"
  shows "loop_inv L' \<and> Res L' = Res L"
proof -
  obtain kind pos where lex: "LexPunctuatorAndAdvance buf (curPos L) = (kind, pos)"
    by (cases "LexPunctuatorAndAdvance buf (curPos L)")
  with assms(2) have b: "body buf (curPos L) kind (L\<lparr>curPos := pos\<rparr>) = Inr (Next, L')"
    by (simp add: again_def)
  from assms(1) have "loop_inv (L\<lparr>curPos := pos\<rparr>)" by simp
  from body_keeps_inv[OF this, of buf "curPos L" kind] b show ?thesis by auto
qed

lemma again_star_scan: "(again buf)\<^sup>*\<^sup>* L L' \<Longrightarrow> scan buf L = scan buf L'"
  by (induction rule: rtranclp_induct) (auto dest: again_scan)

lemma again_star_inv:
  "(again buf)\<^sup>*\<^sup>* L L' \<Longrightarrow> loop_inv L \<Longrightarrow> loop_inv L' \<and> Res L' = Res L"
  by (induction rule: rtranclp_induct) (auto dest: again_inv)

lemma start_inv: "loop_inv (start V)"
  by (simp add: start_def loop_inv_def inBlockComment_def)

lemma during_scan: "during line V L \<Longrightarrow> scan (c_str line) (start V) = scan (c_str line) L"
  unfolding during_def by (rule again_star_scan)

lemma during_inv: "during line V L \<Longrightarrow> loop_inv L \<and> Res L = kComplete"
  unfolding during_def using again_star_inv[OF _ start_inv, of "c_str line" V L]
  by (simp add: start_def)

lemma body_mismatch:
  assumes "loop_inv L" "mismatch_here kind L"
  shows "body buf ps kind L = Inr (Break, L\<lparr>Res := kMismatch\<rparr>)"
proof -
  from assms have c1: "(kind = commentTok L) = False"
    by (auto simp: loop_inv_def mismatch_here_def tok_defs)
  from assms have c2: "multilineComment L = False" by (simp add: mismatch_here_def)
  from assms have c3: "tok_l_square \<le> kind \<and> kind \<le> tok_r_brace" "kind mod 2 \<noteq> 0"
    using closer_kinds[of kind] by (simp_all add: mismatch_here_def)
  from assms c3 have c4: "(if ParenStack L = [] then - 1 else hd (ParenStack L)) \<noteq> kind - 1"
    by (auto simp: mismatch_here_def tok_defs)
  show ?thesis
    unfolding body_def using c3 c4 by (simp add: c1 c2)
qed

lemma scan_mismatch:
  assumes "loop_inv L" "mismatch_at buf L"
  shows "scan buf L = Inr (L\<lparr>curPos := snd (LexPunctuatorAndAdvance buf (curPos L)),
                             Res := kMismatch\<rparr>)"
proof -
  obtain kind pos where lex: "LexPunctuatorAndAdvance buf (curPos L) = (kind, pos)"
    by (cases "LexPunctuatorAndAdvance buf (curPos L)")
  from assms lex have "loop_inv (L\<lparr>curPos := pos\<rparr>)" "mismatch_here kind (L\<lparr>curPos := pos\<rparr>)"
    by (simp_all add: mismatch_at_def)
  from body_mismatch[OF this, of buf "curPos L"] lex show ?thesis
    by (simp add: scan_unfold[OF lex])
qed

lemma body_sets_mismatch:
  assumes "loop_inv L" "body buf ps kind L = Inr (f, L')" "Res L' \<noteq> Res L"
  shows "f = Break \<and> L' = L\<lparr>Res := kMismatch\<rparr> \<and> mismatch_here kind L"
proof (cases "kind = commentTok L")
  case True
  from body_digraph[OF assms(1) True, of buf ps] assms(2,3) show ?thesis by auto
next
  case False
  show ?thesis
  proof (cases "multilineComment L \<and> kind = tok_eof")
    case True
    with body_recovery[OF assms(1) False, of buf ps] assms(2,3) show ?thesis by auto
  next
    case nr: False
    from body_brackets[OF assms(1) False nr, of buf ps] assms(2,3) show ?thesis
      by (cases f) auto
  qed
qed

lemma scan_mismatch_found:
  "loop_inv L \<Longrightarrow> scan buf L = Inr L' \<Longrightarrow> Res L' \<noteq> Res L \<Longrightarrow>
     \<exists>Lm. (again buf)\<^sup>*\<^sup>* L Lm \<and> mismatch_at buf Lm \<and> ParenStack L' = ParenStack Lm"
proof (induction buf L rule: scan.induct)
  case (1 buf L)
  obtain kind pos where lex: "LexPunctuatorAndAdvance buf (curPos L) = (kind, pos)"
    by (cases "LexPunctuatorAndAdvance buf (curPos L)")
  from "1.prems" have inv: "loop_inv (L\<lparr>curPos := pos\<rparr>)" by simp
  from body_keeps_inv[OF inv, of buf "curPos L" kind]
  obtain f L1 where b: "body buf (curPos L) kind (L\<lparr>curPos := pos\<rparr>) = Inr (f, L1)"
    and n: "f = Next \<longrightarrow> loop_inv L1 \<and> Res L1 = Res L"
    by auto
  show ?case
  proof (cases f)
    case Next
    show ?thesis
    proof (cases "kind = tok_eof")
      case True
      with Next b n "1.prems" show ?thesis by (simp add: scan_unfold[OF lex])
    next
      case False
      with Next b have ag: "again buf L L1" by (simp add: again_def lex)
      from False Next b "1.prems" have s1: "scan buf L1 = Inr L'"
        by (simp add: scan_unfold[OF lex])
      from "1.IH"[OF refl lex[symmetric] refl b[unfolded Next] refl refl False _ s1] n Next "1.prems"(3)
      obtain Lm where "(again buf)\<^sup>*\<^sup>* L1 Lm" "mismatch_at buf Lm" "ParenStack L' = ParenStack Lm"
        by auto
      with ag show ?thesis by (meson converse_rtranclp_into_rtranclp)
    qed
  next
    case Break
    with b "1.prems" have eq: "L1 = L'" by (simp add: scan_unfold[OF lex])
    with "1.prems"(3) have "Res L1 \<noteq> Res (L\<lparr>curPos := pos\<rparr>)" by simp
    from body_sets_mismatch[OF inv b this] eq lex
    have "mismatch_at buf L" "ParenStack L' = ParenStack L"
      by (auto simp: mismatch_at_def)
    then show ?thesis by blast
  qed
qed

section \<open>From the loop to the result of validate\<close>

lemma validate_of_scan:
  assumes "scan (c_str line) (start V) = Inr L"
  shows "validate line V =
     Inr (if ParenStack L \<noteq> [] \<and> Res L \<noteq> kMismatch then kIncomplete else Res L,
          \<lparr>m_Input =
             (if m_Input V \<noteq> [] then
                (if ParenStack L \<noteq> [] \<and> (hd (ParenStack L) = tok_stringlit
                                           \<or> hd (ParenStack L) = tok_charlit)
                 then m_Input V @ [CHR 0x5C, CHR ''n'']
                 else m_Input V @ [CHR 0x0A])
              else []) @ line,
           m_ParenStack = ParenStack L\<rparr>)"
  using assms by (simp add: validate_def Let_def)

lemma scan_start:
  "\<exists>L. scan (c_str line) (start V) = Inr L \<and> (Res L = kComplete \<or> Res L = kMismatch)"
  using scan_total[OF start_inv, of "c_str line" V] by (simp add: start_def)

lemma mismatch_iff:
  assumes "scan (c_str line) (start V) = Inr L'"
  shows "(Res L' = kMismatch) = (\<exists>L. during line V L \<and> mismatch_at (c_str line) L)"
proof
  assume "Res L' = kMismatch"
  then have "Res L' \<noteq> Res (start V)" by (simp add: start_def)
  from scan_mismatch_found[OF start_inv assms this]
  show "\<exists>L. during line V L \<and> mismatch_at (c_str line) L"
    by (auto simp: during_def)
next
  assume "\<exists>L. during line V L \<and> mismatch_at (c_str line) L"
  then obtain L where d: "during line V L" and m: "mismatch_at (c_str line) L" by blast
  from during_inv[OF d] have "loop_inv L" by simp
  from scan_mismatch[OF this m] during_scan[OF d] assms
  show "Res L' = kMismatch" by auto
qed

lemma validate_total: "\<exists>r V'. validate line V = Inr (r, V')"
  using scan_start[of line V] validate_of_scan[of line V] by auto

lemma feed_total: "\<exists>V'. feed lines V = Inr V'"
proof (induction lines arbitrary: V)
  case Nil
  show ?case by simp
next
  case (Cons line lines)
  from validate_total[of line V] obtain r V1 where "validate line V = Inr (r, V1)" by blast
  with Cons.IH[of V1] show ?case by simp
qed

text \<open>
  Only opening brackets and the in-block-comment marker are ever pushed, so a
  stack that holds nothing else stays that way; the test for a literal kind at
  the top of the stack then fails and the line is joined with a real newline.
\<close>

lemma unwindTokens_subset: "unwindTokens q t = Inr q' \<Longrightarrow> set q' \<subseteq> set q"
  by (induction q) (auto split: if_splits)

lemma markers_only_unwind:
  "markers_only q \<Longrightarrow> unwindTokens q t = Inr q' \<Longrightarrow> markers_only q'"
  using unwindTokens_subset[of q t q'] by (auto simp: markers_only_def)

lemma markers_only_tl: "markers_only q \<Longrightarrow> markers_only (tl q)"
  by (cases q) (auto simp: markers_only_def)

lemma body_markers_only:
  assumes "markers_only (ParenStack L)" and "body buf ps kind L = Inr (f, L')"
  shows "markers_only (ParenStack L')"
proof (cases "kind = commentTok L")
  case True
  with assms show ?thesis
    by (auto simp: body_def markers_only_def split: if_splits sum.splits
             dest!: unwindTokens_subset)
next
  case False
  show ?thesis
  proof (cases "multilineComment L \<and> kind = tok_eof")
    case True
    with False assms show ?thesis
      by (auto simp: body_def Let_def markers_only_def split: if_splits sum.splits
               dest!: unwindTokens_subset)
  next
    case nr: False
    define L1 where "L1 = (if multilineComment L \<and> commentTok L = tok_slash \<and> kind \<noteq> tok_asterik
                then L\<lparr>commentTok := tok_asterik\<rparr> else L)"
    have m1: "markers_only (ParenStack L1)" using assms(1) by (simp add: L1_def)
    have op: "tok_l_square \<le> kind \<and> kind \<le> tok_r_brace \<Longrightarrow> kind mod 2 = 0
                \<Longrightarrow> markers_only (kind # ParenStack L1)"
      using m1 opener_kinds[of kind] by (auto simp: markers_only_def)
    from assms(2) show ?thesis
      unfolding body_plain[OF False nr] L1_def[symmetric] Let_def
      using m1 op markers_only_tl[OF m1]
      by (auto split: if_splits)
  qed
qed

lemma scan_markers_only:
  "markers_only (ParenStack L) \<Longrightarrow> scan buf L = Inr L' \<Longrightarrow> markers_only (ParenStack L')"
proof (induction buf L rule: scan.induct)
  case (1 buf L)
  obtain kind pos where lex: "LexPunctuatorAndAdvance buf (curPos L) = (kind, pos)"
    by (cases "LexPunctuatorAndAdvance buf (curPos L)")
  from "1.prems"(2) obtain f L1 where
    b: "body buf (curPos L) kind (L\<lparr>curPos := pos\<rparr>) = Inr (f, L1)"
    by (auto simp: scan_unfold[OF lex] split: sum.splits)
  from "1.prems"(1) have "markers_only (ParenStack (L\<lparr>curPos := pos\<rparr>))" by simp
  from body_markers_only[OF this b] have m1: "markers_only (ParenStack L1)" .
  show ?case
  proof (cases "f = Next \<and> kind \<noteq> tok_eof")
    case True
    with b "1.prems"(2) have "scan buf L1 = Inr L'" by (simp add: scan_unfold[OF lex])
    with "1.IH"[OF refl lex[symmetric] refl b refl _ _ m1] True show ?thesis by simp
  next
    case False
    with b "1.prems"(2) have "L1 = L'" by (cases f) (auto simp: scan_unfold[OF lex])
    with m1 show ?thesis by simp
  qed
qed

lemma validate_markers_only:
  assumes "markers_only (m_ParenStack V)" and "validate line V = Inr (r, V')"
  shows "markers_only (m_ParenStack V')
         \<and> m_Input V' = (if m_Input V = [] then line else m_Input V @ [CHR 0x0A] @ line)"
proof -
  from scan_start[of line V] obtain L where s: "scan (c_str line) (start V) = Inr L" by blast
  from assms(1) have "markers_only (ParenStack (start V))" by (simp add: start_def)
  from scan_markers_only[OF this s] have m: "markers_only (ParenStack L)" .
  then have "ParenStack L \<noteq> [] \<Longrightarrow> hd (ParenStack L) \<noteq> tok_stringlit \<and> hd (ParenStack L) \<noteq> tok_charlit"
    by (cases "ParenStack L") (auto simp: markers_only_def tok_defs)
  with validate_of_scan[OF s] assms(2) m show ?thesis by auto
qed

lemma feed_markers_only:
  "markers_only (m_ParenStack V) \<Longrightarrow> feed lines V = Inr V' \<Longrightarrow> markers_only (m_ParenStack V')"
proof (induction lines arbitrary: V)
  case Nil
  then show ?case by simp
next
  case (Cons line lines)
  from validate_total[of line V] obtain r V1 where v: "validate line V = Inr (r, V1)" by blast
  with Cons.prems(2) have "feed lines V1 = Inr V'" by simp
  with Cons.IH[of V1] validate_markers_only[OF Cons.prems(1) v] show ?case by simp
qed

section \<open>The result of validate\<close>

text \<open>
  Claim C1. For every line and every validator, \<^verbatim>\<open>validate\<close> returns a result.
  The result is \<open>kMismatch\<close> if and only if the loop met a bracket mismatch
  while scanning the line (some state of the loop has a closing bracket as its
  next token, outside a block comment, with the stack empty or its top not the
  corresponding opener). Otherwise the result is \<open>kIncomplete\<close> when the stack
  is not empty after the line and \<open>kComplete\<close> when it is empty; in particular
  the stack is empty whenever the result is \<open>kComplete\<close>.
\<close>

theorem validate_result:
  "\<exists>r V'. validate line V = Inr (r, V')
     \<and> (r = kMismatch \<longleftrightarrow> (\<exists>L. during line V L \<and> mismatch_at (c_str line) L))
     \<and> (r \<noteq> kMismatch \<longrightarrow> (if m_ParenStack V' = [] then r = kComplete else r = kIncomplete))
     \<and> (r = kComplete \<longrightarrow> m_ParenStack V' = [])"
proof -
  from scan_start[of line V] obtain L where
    s: "scan (c_str line) (start V) = Inr L" and r: "Res L = kComplete \<or> Res L = kMismatch"
    by blast
  note v = validate_of_scan[OF s]
  note m = mismatch_iff[OF s]
  show ?thesis
  proof (cases "Res L = kMismatch")
    case True
    with v m show ?thesis by simp
  next
    case False
    with r have c: "Res L = kComplete" by simp
    with v m show ?thesis by (cases "ParenStack L = []") simp_all
  qed
qed

text \<open>
  The line \<^verbatim>\<open>()\<close> on a fresh validator: no mismatch, the result is
  \<open>kComplete\<close> and the stack is empty.
\<close>

theorem validate_result_witness:
  "validate ''()'' fresh = Inr (kComplete, \<lparr>m_Input = ''()'', m_ParenStack = []\<rparr>)
   \<and> \<not> (\<exists>L. during ''()'' fresh L \<and> mismatch_at (c_str ''()'') L)"
proof -
  have e: "validate ''()'' fresh = Inr (kComplete, \<lparr>m_Input = ''()'', m_ParenStack = []\<rparr>)"
    by code_simp
  from validate_result[of "''()''" fresh] e show ?thesis by simp
qed

section \<open>Closing brackets that do not match\<close>

text \<open>
  Claim C2. Whenever the loop of \<^verbatim>\<open>validate\<close> reads a closing bracket while it
  is not inside a block comment and the stack is empty or its top is not the
  corresponding opener, the loop ends at once, with the cursor right behind that
  bracket and \<^verbatim>\<open>Res\<close> set to \<open>kMismatch\<close>, and \<^verbatim>\<open>validate\<close> returns
  \<open>kMismatch\<close>. In particular the line \<^verbatim>\<open>)\<close> on a fresh validator yields
  \<open>kMismatch\<close>.
\<close>

theorem closing_bracket_mismatch:
  assumes "during line V L" and "mismatch_at (c_str line) L"
  shows "scan (c_str line) L =
           Inr (L\<lparr>curPos := snd (LexPunctuatorAndAdvance (c_str line) (curPos L)),
                  Res := kMismatch\<rparr>)
         \<and> (\<exists>V'. validate line V = Inr (kMismatch, V'))
         \<and> validate '')'' fresh = Inr (kMismatch, \<lparr>m_Input = '')'', m_ParenStack = []\<rparr>)"
proof -
  from during_inv[OF assms(1)] have "loop_inv L" by simp
  note s = scan_mismatch[OF this assms(2)]
  with during_scan[OF assms(1)] have "scan (c_str line) (start V) = Inr (L\<lparr>curPos := snd (LexPunctuatorAndAdvance (c_str line) (curPos L)),
                  Res := kMismatch\<rparr>)" by simp
  from validate_of_scan[OF this] have "\<exists>V'. validate line V = Inr (kMismatch, V')" by simp
  moreover have "validate '')'' fresh = Inr (kMismatch, \<lparr>m_Input = '')'', m_ParenStack = []\<rparr>)"
    by code_simp
  ultimately show ?thesis using s by simp
qed

text \<open>
  The line \<^verbatim>\<open>(]\<close> on a fresh validator: after the opening parenthesis the
  loop reads the closing square bracket and stops there.
\<close>

theorem closing_bracket_mismatch_witness:
  "during ''(]'' fresh \<lparr>curPos = 1, multilineComment = False, commentTok = tok_slash,
                         ParenStack = [tok_l_paren], Res = kComplete\<rparr>
   \<and> mismatch_at (c_str ''(]'') \<lparr>curPos = 1, multilineComment = False, commentTok = tok_slash,
                         ParenStack = [tok_l_paren], Res = kComplete\<rparr>
   \<and> scan (c_str ''(]'') \<lparr>curPos = 1, multilineComment = False, commentTok = tok_slash,
                         ParenStack = [tok_l_paren], Res = kComplete\<rparr>
       = Inr \<lparr>curPos = 2, multilineComment = False, commentTok = tok_slash,
                         ParenStack = [tok_l_paren], Res = kMismatch\<rparr>"
proof -
  let ?L = "\<lparr>curPos = 1, multilineComment = False, commentTok = tok_slash,
             ParenStack = [tok_l_paren], Res = kComplete\<rparr>"
  have "again (c_str ''(]'') (start fresh) ?L" by code_simp
  then have d: "during ''(]'' fresh ?L" unfolding during_def by (rule r_into_rtranclp)
  have m: "mismatch_at (c_str ''(]'') ?L" by code_simp
  have p: "snd (LexPunctuatorAndAdvance (c_str ''(]'') (curPos ?L)) = 2" by code_simp
  from closing_bracket_mismatch[OF d m] d m p show ?thesis by simp
qed

section \<open>Closing a block comment\<close>

text \<open>
  Claim C3. When the loop, inside a block comment and having just seen an
  asterisk, reads a slash (the digraph \<^verbatim>\<open>*/\<close> is confirmed), the topmost
  in-block-comment marker is popped together with everything above it, the
  entries below it stay, and the loop goes on outside the comment. Consequently
  the line \<^verbatim>\<open>{ /* { */ }\<close> on a fresh validator yields \<open>kComplete\<close>.
\<close>

theorem comment_close_unwinds:
  assumes "during line V L"
    and "multilineComment L" and "commentTok L = tok_slash"
    and "LexPunctuatorAndAdvance (c_str line) (curPos L) = (tok_slash, pos)"
  shows "(\<exists>above below.
            ParenStack L = above @ tok_slash # below \<and> tok_slash \<notin> set above
            \<and> again (c_str line) L
                 (L\<lparr>curPos := pos, multilineComment := False, commentTok := tok_slash,
                    ParenStack := below\<rparr>))
         \<and> validate ''{ /* { */ }'' fresh
             = Inr (kComplete, \<lparr>m_Input = ''{ /* { */ }'', m_ParenStack = []\<rparr>)"
proof -
  from during_inv[OF assms(1)] assms(2) have mem: "tok_slash \<in> set (ParenStack L)"
    by (simp add: loop_inv_def)
  then obtain above below where sp: "ParenStack L = above @ tok_slash # below"
    and na: "tok_slash \<notin> set above"
    by (meson split_list_first)
  then have dw: "dropWhile (\<lambda>k. k \<noteq> tok_slash) (ParenStack L) = tok_slash # below"
    by (auto simp: dropWhile_append3)
  have "body (c_str line) (curPos L) tok_slash (L\<lparr>curPos := pos\<rparr>)
          = Inr (Next, L\<lparr>curPos := pos, multilineComment := False, commentTok := tok_slash,
                          ParenStack := below\<rparr>)"
    using assms(2,3) mem dw by (simp add: body_def unwindTokens_member)
  with assms(4) have "again (c_str line) L
                 (L\<lparr>curPos := pos, multilineComment := False, commentTok := tok_slash,
                    ParenStack := below\<rparr>)"
    by (simp add: again_def tok_defs)
  moreover have "validate ''{ /* { */ }'' fresh
             = Inr (kComplete, \<lparr>m_Input = ''{ /* { */ }'', m_ParenStack = []\<rparr>)"
    by code_simp
  ultimately show ?thesis using sp na by blast
qed

text \<open>
  A validator left inside a comment by earlier lines, with a parenthesis opened
  inside the comment and a brace opened before it, reads the line \<^verbatim>\<open>*/\<close>: the
  parenthesis and the marker go, the brace stays.
\<close>

theorem comment_close_unwinds_witness:
  "during ''*/'' \<lparr>m_Input = ''{ /* ('', m_ParenStack = [tok_l_paren, tok_slash, tok_l_brace]\<rparr>
      \<lparr>curPos = 1, multilineComment = True, commentTok = tok_slash,
       ParenStack = [tok_l_paren, tok_slash, tok_l_brace], Res = kComplete\<rparr>
   \<and> LexPunctuatorAndAdvance (c_str ''*/'') 1 = (tok_slash, 2)
   \<and> again (c_str ''*/'')
       \<lparr>curPos = 1, multilineComment = True, commentTok = tok_slash,
        ParenStack = [tok_l_paren, tok_slash, tok_l_brace], Res = kComplete\<rparr>
       \<lparr>curPos = 2, multilineComment = False, commentTok = tok_slash,
        ParenStack = [tok_l_brace], Res = kComplete\<rparr>"
proof -
  let ?V = "\<lparr>m_Input = ''{ /* ('', m_ParenStack = [tok_l_paren, tok_slash, tok_l_brace]\<rparr>"
  let ?L = "\<lparr>curPos = 1, multilineComment = True, commentTok = tok_slash,
             ParenStack = [tok_l_paren, tok_slash, tok_l_brace], Res = kComplete\<rparr>"
  have "again (c_str ''*/'') (start ?V) ?L" by code_simp
  then have d: "during ''*/'' ?V ?L" unfolding during_def by (rule r_into_rtranclp)
  have l: "LexPunctuatorAndAdvance (c_str ''*/'') (curPos ?L) = (tok_slash, 2)" by code_simp
  from comment_close_unwinds[OF d _ _ l]
  obtain above below where
    "[tok_l_paren, tok_slash, tok_l_brace] = above @ tok_slash # below" "tok_slash \<notin> set above"
    "again (c_str ''*/'') ?L (?L\<lparr>curPos := 2, multilineComment := False, commentTok := tok_slash,
                    ParenStack := below\<rparr>)"
    by auto
  moreover from this(1,2) have "below = [tok_l_brace]"
    by (cases above; cases "tl above") (auto simp: tok_defs)
  ultimately show ?thesis using d l by simp
qed

section \<open>Brackets inside a block comment\<close>

text \<open>
  Claim C5, as the code has it. While the loop is inside a block comment and
  reads a bracket, it goes round again, still inside the comment and without a
  mismatch; the in-block-comment marker and everything below it are unchanged.
  Above the marker the stack does change: an opening bracket is pushed, a
  closing bracket whose opener is the top of the stack pops it, and only a
  closing bracket that does not match the top is skipped with the stack
  untouched.
\<close>

theorem brackets_inside_comment:
  assumes "during line V L" and "multilineComment L"
    and "LexPunctuatorAndAdvance (c_str line) (curPos L) = (kind, pos)"
    and "kind \<in> {tok_l_square, tok_r_square, tok_l_paren, tok_r_paren, tok_l_brace, tok_r_brace}"
  shows "\<exists>stack'.
           again (c_str line) L (L\<lparr>curPos := pos, commentTok := tok_asterik, ParenStack := stack'\<rparr>)
           \<and> stack' = (if kind \<in> {tok_l_square, tok_l_paren, tok_l_brace} then kind # ParenStack L
                       else if hd (ParenStack L) = kind - 1 then tl (ParenStack L)
                       else ParenStack L)
           \<and> dropWhile (\<lambda>k. k \<noteq> tok_slash) stack' = dropWhile (\<lambda>k. k \<noteq> tok_slash) (ParenStack L)"
proof -
  let ?L0 = "L\<lparr>curPos := pos\<rparr>"
  from during_inv[OF assms(1)] assms(2) have mem: "tok_slash \<in> set (ParenStack L)"
    and ct: "commentTok L = tok_slash \<or> commentTok L = tok_asterik"
    by (simp_all add: loop_inv_def)
  from mem have ne: "ParenStack L \<noteq> []" by auto
  from assms(4) have br: "tok_l_square \<le> kind \<and> kind \<le> tok_r_brace"
    and k1: "kind \<noteq> tok_asterik" and k2: "kind \<noteq> tok_eof" and k3: "kind \<noteq> tok_slash"
    by (auto simp: tok_defs)
  from ct k1 k3 have k4: "kind \<noteq> commentTok ?L0" by auto
  from k2 have k5: "\<not> (multilineComment ?L0 \<and> kind = tok_eof)" by simp
  define L1 where "L1 = L\<lparr>curPos := pos, commentTok := tok_asterik\<rparr>"
  have l1: "(if multilineComment ?L0 \<and> commentTok ?L0 = tok_slash \<and> kind \<noteq> tok_asterik
             then ?L0\<lparr>commentTok := tok_asterik\<rparr> else ?L0) = L1"
    using ct assms(2) k1 by (auto simp: L1_def)
  have b: "body (c_str line) (curPos L) kind ?L0 =
         (if kind mod 2 \<noteq> 0 then
            (if hd (ParenStack L) \<noteq> kind - 1 then Inr (Next, L1)
             else Inr (Next, L1\<lparr>ParenStack := tl (ParenStack L)\<rparr>))
          else Inr (Next, L1\<lparr>ParenStack := kind # ParenStack L\<rparr>))"
    unfolding body_plain[OF k4 k5] l1 Let_def using br ne assms(2) by (simp add: L1_def)
  show ?thesis
  proof (cases "kind mod 2 = 0")
    case True
    with br have op: "kind \<in> {tok_l_square, tok_l_paren, tok_l_brace}"
      using opener_kinds[of kind] by simp
    from True b have "body (c_str line) (curPos L) kind ?L0
                        = Inr (Next, L\<lparr>curPos := pos, commentTok := tok_asterik,
                                        ParenStack := kind # ParenStack L\<rparr>)"
      by (simp add: L1_def)
    with assms(3) k2 have "again (c_str line) L
        (L\<lparr>curPos := pos, commentTok := tok_asterik, ParenStack := kind # ParenStack L\<rparr>)"
      by (simp add: again_def)
    with op k3 show ?thesis by simp
  next
    case False
    with br have "kind \<in> {tok_r_square, tok_r_paren, tok_r_brace}"
      using closer_kinds[of kind] by simp
    then have nop: "kind \<notin> {tok_l_square, tok_l_paren, tok_l_brace}"
      by (auto simp: tok_defs)
    show ?thesis
    proof (cases "hd (ParenStack L) = kind - 1")
      case True
      with br have "hd (ParenStack L) \<noteq> tok_slash" by (auto simp: tok_defs)
      with ne have dw: "dropWhile (\<lambda>k. k \<noteq> tok_slash) (tl (ParenStack L))
                        = dropWhile (\<lambda>k. k \<noteq> tok_slash) (ParenStack L)"
        by (cases "ParenStack L") auto
      from True False b have "body (c_str line) (curPos L) kind ?L0
                        = Inr (Next, L\<lparr>curPos := pos, commentTok := tok_asterik,
                                        ParenStack := tl (ParenStack L)\<rparr>)"
        by (simp add: L1_def)
      with assms(3) k2 have "again (c_str line) L
          (L\<lparr>curPos := pos, commentTok := tok_asterik, ParenStack := tl (ParenStack L)\<rparr>)"
        by (simp add: again_def)
      with nop True dw show ?thesis by simp
    next
      case nm: False
      with False b have "body (c_str line) (curPos L) kind ?L0
                        = Inr (Next, L\<lparr>curPos := pos, commentTok := tok_asterik\<rparr>)"
        by (simp add: L1_def)
      with assms(3) k2 have "again (c_str line) L
          (L\<lparr>curPos := pos, commentTok := tok_asterik, ParenStack := ParenStack L\<rparr>)"
        by (simp add: again_def)
      with nop nm show ?thesis by simp
    qed
  qed
qed

text \<open>
  A validator inside a comment reads the line \<^verbatim>\<open>(\<close>: the parenthesis is
  pushed above the marker.
\<close>

theorem brackets_inside_comment_witness:
  "during ''('' \<lparr>m_Input = ''/*'', m_ParenStack = [tok_slash]\<rparr>
      \<lparr>curPos = 0, multilineComment = True, commentTok = tok_asterik,
       ParenStack = [tok_slash], Res = kComplete\<rparr>
   \<and> LexPunctuatorAndAdvance (c_str ''('') 0 = (tok_l_paren, 1)
   \<and> again (c_str ''('')
       \<lparr>curPos = 0, multilineComment = True, commentTok = tok_asterik,
        ParenStack = [tok_slash], Res = kComplete\<rparr>
       \<lparr>curPos = 1, multilineComment = True, commentTok = tok_asterik,
        ParenStack = [tok_l_paren, tok_slash], Res = kComplete\<rparr>"
proof -
  let ?V = "\<lparr>m_Input = ''/*'', m_ParenStack = [tok_slash]\<rparr>"
  let ?L = "\<lparr>curPos = 0, multilineComment = True, commentTok = tok_asterik,
             ParenStack = [tok_slash], Res = kComplete\<rparr>"
  have s: "start ?V = ?L" by code_simp
  have d: "during ''('' ?V ?L" unfolding during_def s[symmetric] by (rule rtranclp.rtrancl_refl)
  have l: "LexPunctuatorAndAdvance (c_str ''('') (curPos ?L) = (tok_l_paren, 1)" by code_simp
  from brackets_inside_comment[OF d _ l] d l show ?thesis by simp
qed

text \<open>
  Claim C5 as stated fails: the stack is not left unchanged. After an earlier
  line \<^verbatim>\<open>/*\<close> the validator is inside a block comment with the stack holding
  the marker only; the line \<^verbatim>\<open>(\<close> leaves the parenthesis on the stack.
\<close>

theorem bracket_inside_comment_is_pushed:
  "inBlockComment \<lparr>m_Input = ''/*'', m_ParenStack = [tok_slash]\<rparr>
   \<and> validate ''('' \<lparr>m_Input = ''/*'', m_ParenStack = [tok_slash]\<rparr>
       = Inr (kIncomplete, \<lparr>m_Input = ''/*'' @ [CHR 0x0A] @ ''('',
                             m_ParenStack = [tok_l_paren, tok_slash]\<rparr>)"
  by code_simp

section \<open>The assertions of unwindTokens\<close>

text \<open>
  Claim C7. \<^verbatim>\<open>validate\<close> calls \<^verbatim>\<open>unwindTokens\<close> only in passes through the loop
  that start with the local flag \<^verbatim>\<open>multilineComment\<close> set, and in every such
  pass the in-block-comment marker is on the stack; so no assertion fires and
  \<^verbatim>\<open>validate\<close> returns a result for every line and every validator. With the
  marker on the stack, \<^verbatim>\<open>unwindTokens\<close> pops the entries above the topmost
  marker and the marker itself, and returns the entries below it unchanged.
\<close>

theorem unwindTokens_marker_present:
  "(\<exists>r V'. validate line V = Inr (r, V'))
   \<and> (during line V L \<and> multilineComment L \<longrightarrow> tok_slash \<in> set (ParenStack L))
   \<and> (tok_slash \<in> set queue \<longrightarrow>
        (\<exists>above below. queue = above @ tok_slash # below \<and> tok_slash \<notin> set above
                        \<and> unwindTokens queue tok_slash = Inr below))"
proof -
  have "during line V L \<and> multilineComment L \<longrightarrow> tok_slash \<in> set (ParenStack L)"
    using during_inv[of line V L] by (auto simp: loop_inv_def)
  moreover have "tok_slash \<in> set queue \<longrightarrow>
        (\<exists>above below. queue = above @ tok_slash # below \<and> tok_slash \<notin> set above
                        \<and> unwindTokens queue tok_slash = Inr below)"
  proof
    assume mem: "tok_slash \<in> set queue"
    then obtain above below where sp: "queue = above @ tok_slash # below"
      and na: "tok_slash \<notin> set above"
      by (meson split_list_first)
    then have "dropWhile (\<lambda>k. k \<noteq> tok_slash) queue = tok_slash # below"
      by (auto simp: dropWhile_append3)
    with unwindTokens_member[OF mem] have "unwindTokens queue tok_slash = Inr below" by simp
    with sp na show "\<exists>above below. queue = above @ tok_slash # below \<and> tok_slash \<notin> set above
                        \<and> unwindTokens queue tok_slash = Inr below" by blast
  qed
  ultimately show ?thesis using validate_total[of line V] by blast
qed

text \<open>
  A validator inside a comment, with a parenthesis above the marker and a brace
  below it: the marker is on the stack, and unwinding leaves the brace.
\<close>

theorem unwindTokens_marker_present_witness:
  "during ''*/'' \<lparr>m_Input = ''{ /* ('', m_ParenStack = [tok_l_paren, tok_slash, tok_l_brace]\<rparr>
      \<lparr>curPos = 0, multilineComment = True, commentTok = tok_asterik,
       ParenStack = [tok_l_paren, tok_slash, tok_l_brace], Res = kComplete\<rparr>
   \<and> tok_slash \<in> set [tok_l_paren, tok_slash, tok_l_brace]
   \<and> unwindTokens [tok_l_paren, tok_slash, tok_l_brace] tok_slash = Inr [tok_l_brace]"
proof -
  let ?V = "\<lparr>m_Input = ''{ /* ('', m_ParenStack = [tok_l_paren, tok_slash, tok_l_brace]\<rparr>"
  let ?L = "\<lparr>curPos = 0, multilineComment = True, commentTok = tok_asterik,
             ParenStack = [tok_l_paren, tok_slash, tok_l_brace], Res = kComplete\<rparr>"
  have s: "start ?V = ?L" by code_simp
  have d: "during ''*/'' ?V ?L" unfolding during_def s[symmetric] by (rule rtranclp.rtrancl_refl)
  have u: "unwindTokens [tok_l_paren, tok_slash, tok_l_brace] tok_slash = Inr [tok_l_brace]"
    by code_simp
  from unwindTokens_marker_present[of "''*/''" ?V ?L "[tok_l_paren, tok_slash, tok_l_brace]"] d u
  show ?thesis by simp
qed

section \<open>reset\<close>

text \<open>
  Claim C9. After any sequence of calls of \<^verbatim>\<open>validate\<close> on a validator that
  was fresh, \<^verbatim>\<open>reset()\<close> gives back the fresh validator: \<^verbatim>\<open>validate(X)\<close>
  then returns the same result and leaves the same stack and the same buffer
  as on a fresh validator, and the inside-block-comment condition is the same.
\<close>

theorem reset_like_fresh:
  "\<exists>V. feed lines fresh = Inr V
       \<and> reset V = fresh
       \<and> validate X (reset V) = validate X fresh
       \<and> inBlockComment (reset V) = inBlockComment fresh"
proof -
  from feed_total[of lines fresh] obtain V where "feed lines fresh = Inr V" by blast
  moreover have "reset V = fresh" by (simp add: reset_def fresh_def)
  ultimately show ?thesis by simp
qed

section \<open>The state after a mismatch\<close>

text \<open>
  Claim C10. When \<^verbatim>\<open>validate\<close> returns \<open>kMismatch\<close>, nothing is rolled back:
  the stack is the one the loop had when it read the offending bracket, with
  the markers pushed by the earlier part of the line still on it, and the
  offending line has been appended to the buffer (after the separator, when the
  buffer was not empty). For example the line \<^verbatim>\<open>(]\<close> on a fresh validator
  leaves the parenthesis on the stack and the line in the buffer.
\<close>

theorem mismatch_keeps_line_and_markers:
  assumes "validate line V = Inr (kMismatch, V')"
  shows "(\<exists>L. during line V L \<and> mismatch_at (c_str line) L \<and> m_ParenStack V' = ParenStack L)
         \<and> m_Input V' =
             (if m_Input V = [] then []
              else if m_ParenStack V' \<noteq> [] \<and> (hd (m_ParenStack V') = tok_stringlit
                                                \<or> hd (m_ParenStack V') = tok_charlit)
              then m_Input V @ [CHR 0x5C, CHR ''n'']
              else m_Input V @ [CHR 0x0A]) @ line
         \<and> validate ''(]'' fresh
             = Inr (kMismatch, \<lparr>m_Input = ''(]'', m_ParenStack = [tok_l_paren]\<rparr>)"
proof -
  from scan_start[of line V] obtain L' where s: "scan (c_str line) (start V) = Inr L'"
    by blast
  note v = validate_of_scan[OF s]
  with assms have r: "Res L' = kMismatch" and st: "m_ParenStack V' = ParenStack L'"
    by (auto split: if_splits)
  from r have "Res L' \<noteq> Res (start V)" by (simp add: start_def)
  from scan_mismatch_found[OF start_inv s this] st
  have "\<exists>L. during line V L \<and> mismatch_at (c_str line) L \<and> m_ParenStack V' = ParenStack L"
    by (auto simp: during_def)
  moreover from v assms have "m_Input V' =
             (if m_Input V = [] then []
              else if m_ParenStack V' \<noteq> [] \<and> (hd (m_ParenStack V') = tok_stringlit
                                                \<or> hd (m_ParenStack V') = tok_charlit)
              then m_Input V @ [CHR 0x5C, CHR ''n'']
              else m_Input V @ [CHR 0x0A]) @ line"
    by auto
  moreover have "validate ''(]'' fresh
             = Inr (kMismatch, \<lparr>m_Input = ''(]'', m_ParenStack = [tok_l_paren]\<rparr>)"
    by code_simp
  ultimately show ?thesis by blast
qed

text \<open>
  The line \<^verbatim>\<open>(]\<close> on a validator whose buffer holds \<^verbatim>\<open>f\<close>.
\<close>

theorem mismatch_keeps_line_and_markers_witness:
  "validate ''(]'' \<lparr>m_Input = ''f'', m_ParenStack = []\<rparr>
     = Inr (kMismatch, \<lparr>m_Input = ''f'' @ [CHR 0x0A] @ ''(]'', m_ParenStack = [tok_l_paren]\<rparr>)
   \<and> (\<exists>L. during ''(]'' \<lparr>m_Input = ''f'', m_ParenStack = []\<rparr> L
           \<and> mismatch_at (c_str ''(]'') L \<and> ParenStack L = [tok_l_paren])"
proof -
  have e: "validate ''(]'' \<lparr>m_Input = ''f'', m_ParenStack = []\<rparr>
     = Inr (kMismatch, \<lparr>m_Input = ''f'' @ [CHR 0x0A] @ ''(]'', m_ParenStack = [tok_l_paren]\<rparr>)"
    by code_simp
  from mismatch_keeps_line_and_markers[OF e]
  have "\<exists>L. during ''(]'' \<lparr>m_Input = ''f'', m_ParenStack = []\<rparr> L
           \<and> mismatch_at (c_str ''(]'') L \<and> ParenStack L = [tok_l_paren]"
    by fastforce
  with e show ?thesis by simp
qed

section \<open>A slash and a later asterisk\<close>

text \<open>
  Claim C4 fails on the code outside a comment. On the line \<^verbatim>\<open>a/(b)*c\<close> the
  slash makes the digraph cursor expect an asterisk; the parenthesis that
  follows does not continue the digraph, yet the cursor still expects an
  asterisk after it, and the asterisk further on opens a block comment: the
  result is \<open>kIncomplete\<close> with the in-block-comment marker on the stack.
\<close>

theorem division_then_product_opens_comment:
  "during ''a/(b)*c'' fresh
      \<lparr>curPos = 2, multilineComment = False, commentTok = tok_asterik,
       ParenStack = [], Res = kComplete\<rparr>
   \<and> again (c_str ''a/(b)*c'')
       \<lparr>curPos = 2, multilineComment = False, commentTok = tok_asterik,
        ParenStack = [], Res = kComplete\<rparr>
       \<lparr>curPos = 3, multilineComment = False, commentTok = tok_asterik,
        ParenStack = [tok_l_paren], Res = kComplete\<rparr>
   \<and> validate ''a/(b)*c'' fresh
       = Inr (kIncomplete, \<lparr>m_Input = ''a/(b)*c'', m_ParenStack = [tok_slash]\<rparr>)"
proof -
  let ?L1 = "\<lparr>curPos = 1, multilineComment = False, commentTok = tok_slash,
              ParenStack = [], Res = kComplete\<rparr>"
  let ?L2 = "\<lparr>curPos = 2, multilineComment = False, commentTok = tok_asterik,
              ParenStack = [], Res = kComplete\<rparr>"
  have a1: "again (c_str ''a/(b)*c'') (start fresh) ?L1" by code_simp
  have a2: "again (c_str ''a/(b)*c'') ?L1 ?L2" by code_simp
  from a1 a2 have "during ''a/(b)*c'' fresh ?L2"
    unfolding during_def by (meson r_into_rtranclp rtranclp.rtrancl_into_rtrancl)
  moreover have "again (c_str ''a/(b)*c'') ?L2
       \<lparr>curPos = 3, multilineComment = False, commentTok = tok_asterik,
        ParenStack = [tok_l_paren], Res = kComplete\<rparr>" by code_simp
  moreover have "validate ''a/(b)*c'' fresh
       = Inr (kIncomplete, \<lparr>m_Input = ''a/(b)*c'', m_ParenStack = [tok_slash]\<rparr>)" by code_simp
  ultimately show ?thesis by simp
qed

section \<open>A literal across two lines\<close>

text \<open>
  Claim C6 fails on the code for a literal that is open across the line
  boundary. The loop never pushes a literal kind on the stack, so the test for
  one at the top of the stack never holds: after any calls of \<^verbatim>\<open>validate\<close>
  on a fresh validator, the next line is appended after a real newline (or
  alone, when the buffer is empty). In particular the second line of a string
  literal is joined to the first with a real newline.
\<close>

theorem literal_across_lines_real_newline:
  "(\<exists>V r V'. feed lines fresh = Inr V \<and> validate line V = Inr (r, V')
      \<and> m_Input V' = (if m_Input V = [] then line else m_Input V @ [CHR 0x0A] @ line))
   \<and> feed [''int x = '' @ [CHR 0x22] @ ''a'', ''b'' @ [CHR 0x22] @ '';''] fresh
       = Inr \<lparr>m_Input = ''int x = '' @ [CHR 0x22] @ ''a'' @ [CHR 0x0A] @ ''b'' @ [CHR 0x22] @ '';'',
              m_ParenStack = []\<rparr>"
proof -
  from feed_total[of lines fresh] obtain V where f: "feed lines fresh = Inr V" by blast
  have "markers_only (m_ParenStack fresh)" by (simp add: fresh_def markers_only_def)
  from feed_markers_only[OF this f] have m: "markers_only (m_ParenStack V)" .
  from validate_total[of line V] obtain r V' where v: "validate line V = Inr (r, V')" by blast
  from validate_markers_only[OF m v] f v
  have "\<exists>V r V'. feed lines fresh = Inr V \<and> validate line V = Inr (r, V')
      \<and> m_Input V' = (if m_Input V = [] then line else m_Input V @ [CHR 0x0A] @ line)"
    by blast
  moreover have "feed [''int x = '' @ [CHR 0x22] @ ''a'', ''b'' @ [CHR 0x22] @ '';''] fresh
       = Inr \<lparr>m_Input = ''int x = '' @ [CHR 0x22] @ ''a'' @ [CHR 0x0A] @ ''b'' @ [CHR 0x22] @ '';'',
              m_ParenStack = []\<rparr>"
    by code_simp
  ultimately show ?thesis by blast
qed

section \<open>A balanced line that is not complete\<close>

text \<open>
  Claim C8 fails on the code. The line \<^verbatim>\<open>(a/b)*c\<close> has balanced brackets, no
  comment digraph and no quote, and \<^verbatim>\<open>validate\<close> on a fresh validator returns
  \<open>kIncomplete\<close> with the in-block-comment marker on the stack.
\<close>

theorem balanced_line_incomplete:
  "spec_balanced [] ''(a/b)*c'' \<and> \<not> spec_comment_digraph ''(a/b)*c''
   \<and> \<not> spec_quoted_literal ''(a/b)*c''
   \<and> validate ''(a/b)*c'' fresh
       = Inr (kIncomplete, \<lparr>m_Input = ''(a/b)*c'', m_ParenStack = [tok_slash]\<rparr>)"
  by code_simp

end
